theory Spec2Isabelle
  imports Main "HOL-Library.Sublist"
begin

section \<open>JavaScript string primitives used by extension.ts\<close>

text \<open>
  Text is a list of \<^typ>\<open>char\<close>: the code units 0..255 of a JavaScript string. A chunk of
  the response stream is modelled by the text that \<^verbatim>\<open>chunk.toString()\<close> returns for it.
\<close>

definition newline :: char where
  "newline = CHR 0x0A"

text \<open>The characters that \<^verbatim>\<open>String.prototype.trim\<close> removes (WhiteSpace and LineTerminator),
  as far as they are code units below 256.\<close>

definition js_ws :: "char \<Rightarrow> bool" where
  "js_ws c = (c = CHR 0x09 \<or> c = CHR 0x0A \<or> c = CHR 0x0B \<or> c = CHR 0x0C \<or> c = CHR 0x0D
              \<or> c = CHR 0x20 \<or> c = CHR 0xA0)"

definition trim :: "string \<Rightarrow> string" where
  "trim s = rev (dropWhile js_ws (rev (dropWhile js_ws s)))"

text \<open>\<^verbatim>\<open>s.split(sep)\<close> for a one-character separator: never the empty list.\<close>

fun js_split :: "char \<Rightarrow> string \<Rightarrow> string list" where
  "js_split sep [] = [[]]"
| "js_split sep (c # cs) =
     (if c = sep then [] # js_split sep cs
      else (case js_split sep cs of [] \<Rightarrow> [[c]] | l # ls \<Rightarrow> (c # l) # ls))"

text \<open>\<^verbatim>\<open>s.substring(a, b)\<close>: both indices are clamped to \<open>0..length\<close> and swapped when
  the first is the larger one.\<close>

definition js_substring :: "string \<Rightarrow> int \<Rightarrow> int \<Rightarrow> string" where
  "js_substring s a b =
     (let n = int (length s);
          a' = min (max a 0) n;
          b' = min (max b 0) n;
          lo = min a' b';
          hi = max a' b'
      in take (nat (hi - lo)) (drop (nat lo) s))"

text \<open>\<^verbatim>\<open>s.substring(a)\<close>: the end index defaults to the length.\<close>

definition js_substring_from :: "string \<Rightarrow> int \<Rightarrow> string" where
  "js_substring_from s a = js_substring s a (int (length s))"

definition startsWith :: "string \<Rightarrow> string \<Rightarrow> bool" where
  "startsWith s p = (take (length p) s = p)"

definition endsWith :: "string \<Rightarrow> string \<Rightarrow> bool" where
  "endsWith s p = (length p \<le> length s \<and> drop (length s - length p) s = p)"

text \<open>\<^verbatim>\<open>s.indexOf(p)\<close> as an option: the first position at which \<open>p\<close> occurs.\<close>

fun indexOf :: "string \<Rightarrow> string \<Rightarrow> nat option" where
  "indexOf [] p = (if p = [] then Some 0 else None)"
| "indexOf (c # cs) p =
     (if take (length p) (c # cs) = p then Some 0
      else map_option Suc (indexOf cs p))"

definition js_includes :: "string \<Rightarrow> string \<Rightarrow> bool" where
  "js_includes s p = (indexOf s p \<noteq> None)"

text \<open>Case folding of the regular-expression flag \<^verbatim>\<open>i\<close> (without \<^verbatim>\<open>u\<close>) on the letters
  of the two labels: an ASCII capital matches its small letter, and no code unit from
  128 on matches an ASCII letter.\<close>

definition ascii_lower :: "char \<Rightarrow> char" where
  "ascii_lower c =
     (if 65 \<le> (of_char c :: nat) \<and> (of_char c :: nat) \<le> 90
      then char_of (of_char c + (32::nat)) else c)"

text \<open>\<^verbatim>\<open>s.replace(/^label/i, '')\<close> for a label of small letters, spaces and colons: the
  pattern is anchored at the start of the string, so at most one occurrence goes.\<close>

definition replace_label_ci :: "string \<Rightarrow> string \<Rightarrow> string" where
  "replace_label_ci label s =
     (if map ascii_lower (take (length label) s) = label then drop (length label) s else s)"

section \<open>JSON.parse and the response member\<close>

text \<open>
  \<^verbatim>\<open>JSON.parse\<close> is the runtime's; it is modelled after the JSON grammar of ECMA-404, which
  ECMAScript's \<^verbatim>\<open>JSON.parse\<close> accepts exactly. A number keeps its lexeme.
\<close>

datatype json =
    JNull
  | JBool bool
  | JNum string
  | JStr string
  | JArr "json list"
  | JObj "(string \<times> json) list"

datatype token =
    TLBrace | TRBrace | TLBracket | TRBracket | TColon | TComma
  | TStr string | TNum string | TTrue | TFalse | TNull

text \<open>JSON's insignificant whitespace: tab, line feed, carriage return, space.\<close>

definition json_ws :: "char \<Rightarrow> bool" where
  "json_ws c = (c = CHR 0x09 \<or> c = CHR 0x0A \<or> c = CHR 0x0D \<or> c = CHR 0x20)"

definition is_digit :: "char \<Rightarrow> bool" where
  "is_digit c = (48 \<le> (of_char c :: nat) \<and> (of_char c :: nat) \<le> 57)"

definition hex_value :: "char \<Rightarrow> nat option" where
  "hex_value c =
     (let n = (of_char c :: nat) in
      if 48 \<le> n \<and> n \<le> 57 then Some (n - 48)
      else if 65 \<le> n \<and> n \<le> 70 then Some (n - 55)
      else if 97 \<le> n \<and> n \<le> 102 then Some (n - 87)
      else None)"

text \<open>The character after a backslash, other than \<^verbatim>\<open>u\<close>.\<close>

definition unescape :: "char \<Rightarrow> char option" where
  "unescape e =
     (if e = CHR 0x22 then Some (CHR 0x22)
      else if e = CHR 0x5C then Some (CHR 0x5C)
      else if e = CHR ''/'' then Some (CHR ''/'')
      else if e = CHR ''b'' then Some (CHR 0x08)
      else if e = CHR ''f'' then Some (CHR 0x0C)
      else if e = CHR ''n'' then Some (CHR 0x0A)
      else if e = CHR ''r'' then Some (CHR 0x0D)
      else if e = CHR ''t'' then Some (CHR 0x09)
      else None)"

text \<open>The four hexadecimal digits of a \<^verbatim>\<open>\u\<close> escape. A code unit from 256 on is not a
  \<^typ>\<open>char\<close>: such an escape is outside this model of text, and the model rejects it.\<close>

definition unicode_escape :: "char \<Rightarrow> char \<Rightarrow> char \<Rightarrow> char \<Rightarrow> char option" where
  "unicode_escape a b c d =
     (case (hex_value a, hex_value b, hex_value c, hex_value d) of
        (Some h3, Some h2, Some h1, Some h0) \<Rightarrow>
          (if h3 = 0 \<and> h2 = 0 then Some (char_of (16 * h1 + h0)) else None)
      | _ \<Rightarrow> None)"

text \<open>A string after its opening quote: the characters it denotes and the input
  after its closing quote.\<close>

fun lex_string :: "string \<Rightarrow> (string \<times> string) option" where
  "lex_string [] = None"
| "lex_string (c # cs) =
     (if c = CHR 0x22 then Some ([], cs)
      else if c = CHR 0x5C then
        (case cs of
           [] \<Rightarrow> None
         | e # es \<Rightarrow>
            (if e = CHR ''u'' then
               (case es of
                  a # b # c' # d # rest \<Rightarrow>
                    (case unicode_escape a b c' d of
                       None \<Rightarrow> None
                     | Some u \<Rightarrow> map_option (\<lambda>(v, r). (u # v, r)) (lex_string rest))
                | _ \<Rightarrow> None)
             else
               (case unescape e of
                  None \<Rightarrow> None
                | Some u \<Rightarrow> map_option (\<lambda>(v, r). (u # v, r)) (lex_string es))))
      else if (of_char c :: nat) < 32 then None
      else map_option (\<lambda>(v, r). (c # v, r)) (lex_string cs))"

text \<open>A number: minus, integer part without leading zeros, fraction, exponent.\<close>

definition lex_int :: "string \<Rightarrow> (string \<times> string) option" where
  "lex_int s =
     (case s of
        [] \<Rightarrow> None
      | d # ds \<Rightarrow>
          (if d = CHR ''0'' then Some ([d], ds)
           else if is_digit d then Some (d # takeWhile is_digit ds, dropWhile is_digit ds)
           else None))"

definition lex_frac :: "string \<Rightarrow> (string \<times> string) option" where
  "lex_frac s =
     (case s of
        [] \<Rightarrow> Some ([], [])
      | c # cs \<Rightarrow>
          (if c = CHR ''.'' then
             (if takeWhile is_digit cs = [] then None
              else Some (c # takeWhile is_digit cs, dropWhile is_digit cs))
           else Some ([], s)))"

definition lex_exp :: "string \<Rightarrow> (string \<times> string) option" where
  "lex_exp s =
     (case s of
        [] \<Rightarrow> Some ([], [])
      | c # cs \<Rightarrow>
          (if c = CHR ''e'' \<or> c = CHR ''E'' then
             (let sgn = (case cs of [] \<Rightarrow> [] | g # gs \<Rightarrow> if g = CHR ''+'' \<or> g = CHR ''-'' then [g] else []);
                  ds = drop (length sgn) cs
              in if takeWhile is_digit ds = [] then None
                 else Some (c # sgn @ takeWhile is_digit ds, dropWhile is_digit ds))
           else Some ([], s)))"

definition lex_number :: "string \<Rightarrow> (string \<times> string) option" where
  "lex_number s =
     (let sgn = (case s of [] \<Rightarrow> [] | c # cs \<Rightarrow> if c = CHR ''-'' then [c] else [])
      in case lex_int (drop (length sgn) s) of
           None \<Rightarrow> None
         | Some (i, r1) \<Rightarrow>
            (case lex_frac r1 of
               None \<Rightarrow> None
             | Some (f, r2) \<Rightarrow>
                (case lex_exp r2 of
                   None \<Rightarrow> None
                 | Some (e, r3) \<Rightarrow> Some (sgn @ i @ f @ e, r3))))"

text \<open>The tokens of a JSON text, or \<open>None\<close> at a character that starts no token.\<close>

function tokens :: "string \<Rightarrow> token list option" where
  "tokens [] = Some []"
| "tokens (c # cs) =
     (if json_ws c then tokens cs
      else if c = CHR ''{'' then map_option ((#) TLBrace) (tokens cs)
      else if c = CHR ''}'' then map_option ((#) TRBrace) (tokens cs)
      else if c = CHR ''['' then map_option ((#) TLBracket) (tokens cs)
      else if c = CHR '']'' then map_option ((#) TRBracket) (tokens cs)
      else if c = CHR '':'' then map_option ((#) TColon) (tokens cs)
      else if c = CHR '','' then map_option ((#) TComma) (tokens cs)
      else if c = CHR 0x22 then
        (case lex_string cs of
           None \<Rightarrow> None
         | Some (v, r) \<Rightarrow> map_option ((#) (TStr v)) (tokens r))
      else if c = CHR ''-'' \<or> is_digit c then
        (case lex_number (c # cs) of
           None \<Rightarrow> None
         | Some (n, r) \<Rightarrow> map_option ((#) (TNum n)) (tokens r))
      else if take 4 (c # cs) = ''true'' then map_option ((#) TTrue) (tokens (drop 3 cs))
      else if take 5 (c # cs) = ''false'' then map_option ((#) TFalse) (tokens (drop 4 cs))
      else if take 4 (c # cs) = ''null'' then map_option ((#) TNull) (tokens (drop 3 cs))
      else None)"
  by pat_completeness auto
termination
proof -
  have string_shorter: "lex_string s = Some (v, r) \<Longrightarrow> length r < length s" for s v r
  proof (induction s arbitrary: v r rule: lex_string.induct)
    case 1
    then show ?case by simp
  next
    case (2 c cs)
    then show ?case
      by (fastforce split: if_splits list.splits option.splits)
  qed
  have int_shorter: "lex_int s = Some (v, r) \<Longrightarrow> length r < length s" for s v r
    by (auto simp: lex_int_def less_Suc_eq_le length_dropWhile_le split: list.splits if_splits)
  have frac_shorter: "lex_frac s = Some (v, r) \<Longrightarrow> length r \<le> length s" for s v r
    by (auto simp: lex_frac_def le_SucI length_dropWhile_le split: list.splits if_splits)
  have exp_shorter: "length r \<le> length s" if h: "lex_exp s = Some (v, r)" for s v r
  proof (cases s)
    case Nil
    with h show ?thesis by (simp add: lex_exp_def)
  next
    case (Cons c cs)
    have "length (dropWhile is_digit (drop n cs)) \<le> length cs" for n
      using length_dropWhile_le [of is_digit "drop n cs"] by simp
    with h Cons show ?thesis
      by (auto simp: lex_exp_def Let_def le_SucI split: if_splits)
  qed
  have number_shorter: "length r < length s" if h: "lex_number s = Some (v, r)" for s v r
  proof -
    define sgn where "sgn = (case s of [] \<Rightarrow> [] | c # cs \<Rightarrow> if c = CHR ''-'' then [c] else [])"
    from h obtain i r1 f r2 e where
      a: "lex_int (drop (length sgn) s) = Some (i, r1)" and
      b: "lex_frac r1 = Some (f, r2)" and
      c: "lex_exp r2 = Some (e, r)"
      unfolding lex_number_def sgn_def [symmetric] Let_def
      by (auto split: option.splits)
    from int_shorter [OF a] frac_shorter [OF b] exp_shorter [OF c]
    have "length r < length (drop (length sgn) s)" by linarith
    then show ?thesis by simp
  qed
  show ?thesis
  proof (relation "measure length")
    show "wf (measure length)" by simp
  next
    fix c cs x2 x y
    assume "lex_string cs = Some x2" "(x, y) = x2"
    then have "lex_string cs = Some (x, y)" by simp
    from string_shorter [OF this]
    show "(y, c # cs) \<in> measure length" by simp
  next
    fix c cs x2 x y
    assume "lex_number (c # cs) = Some x2" "(x, y) = x2"
    then have "lex_number (c # cs) = Some (x, y)" by simp
    from number_shorter [OF this]
    show "(y, c # cs) \<in> measure length" by simp
  qed auto
qed

text \<open>
  The grammar over tokens, as a pushdown automaton: the stack holds the arrays and
  objects that are open, each with what it has collected so far.
\<close>

datatype frame =
    FArr "json list"
  | FObj "(string \<times> json) list"
  | FMember "(string \<times> json) list" string

datatype mode =
    MValue
  | MValueOrClose
  | MKey
  | MKeyOrClose
  | MColon
  | MNext
  | MDone json

text \<open>A complete value goes into the innermost open container, or is the result.\<close>

fun deliver :: "json \<Rightarrow> frame list \<Rightarrow> (mode \<times> frame list) option" where
  "deliver v [] = Some (MDone v, [])"
| "deliver v (FArr vs # st) = Some (MNext, FArr (vs @ [v]) # st)"
| "deliver v (FMember ms k # st) = Some (MNext, FObj (ms @ [(k, v)]) # st)"
| "deliver v (FObj ms # st) = None"

fun start_value :: "token \<Rightarrow> frame list \<Rightarrow> (mode \<times> frame list) option" where
  "start_value (TStr s) st = deliver (JStr s) st"
| "start_value (TNum n) st = deliver (JNum n) st"
| "start_value TTrue st = deliver (JBool True) st"
| "start_value TFalse st = deliver (JBool False) st"
| "start_value TNull st = deliver JNull st"
| "start_value TLBracket st = Some (MValueOrClose, FArr [] # st)"
| "start_value TLBrace st = Some (MKeyOrClose, FObj [] # st)"
| "start_value _ st = None"

fun close_array :: "frame list \<Rightarrow> (mode \<times> frame list) option" where
  "close_array (FArr vs # st) = deliver (JArr vs) st"
| "close_array _ = None"

fun close_object :: "frame list \<Rightarrow> (mode \<times> frame list) option" where
  "close_object (FObj ms # st) = deliver (JObj ms) st"
| "close_object _ = None"

fun open_member :: "token \<Rightarrow> frame list \<Rightarrow> (mode \<times> frame list) option" where
  "open_member (TStr k) (FObj ms # st) = Some (MColon, FMember ms k # st)"
| "open_member _ _ = None"

fun step :: "mode \<times> frame list \<Rightarrow> token \<Rightarrow> (mode \<times> frame list) option" where
  "step (MValue, st) t = start_value t st"
| "step (MValueOrClose, st) t = (if t = TRBracket then close_array st else start_value t st)"
| "step (MKey, st) t = open_member t st"
| "step (MKeyOrClose, st) t = (if t = TRBrace then close_object st else open_member t st)"
| "step (MColon, st) t = (if t = TColon then Some (MValue, st) else None)"
| "step (MNext, st) t =
     (case st of
        FArr vs # _ \<Rightarrow>
          (if t = TComma then Some (MValue, st)
           else if t = TRBracket then close_array st else None)
      | FObj ms # _ \<Rightarrow>
          (if t = TComma then Some (MKey, st)
           else if t = TRBrace then close_object st else None)
      | _ \<Rightarrow> None)"
| "step (MDone v, st) t = None"

fun run :: "mode \<times> frame list \<Rightarrow> token list \<Rightarrow> (mode \<times> frame list) option" where
  "run cfg [] = Some cfg"
| "run cfg (t # ts) = (case step cfg t of None \<Rightarrow> None | Some cfg' \<Rightarrow> run cfg' ts)"

text \<open>\<^verbatim>\<open>JSON.parse(text)\<close>: \<open>None\<close> when it throws a SyntaxError.\<close>

definition json_parse :: "string \<Rightarrow> json option" where
  "json_parse text' =
     (case tokens text' of
        None \<Rightarrow> None
      | Some ts \<Rightarrow>
          (case run (MValue, []) ts of
             Some (MDone v, []) \<Rightarrow> Some v
           | _ \<Rightarrow> None))"

text \<open>Property lookup on a parsed object: of two members with one name the later wins.\<close>

fun member :: "(string \<times> json) list \<Rightarrow> string \<Rightarrow> json option" where
  "member [] k = None"
| "member ((k', v) # ms) k =
     (case member ms k of Some w \<Rightarrow> Some w | None \<Rightarrow> if k' = k then Some v else None)"

text \<open>A number lexeme that denotes zero: all digits of its mantissa are \<^verbatim>\<open>0\<close>.\<close>

definition zero_lexeme :: "string \<Rightarrow> bool" where
  "zero_lexeme n =
     list_all (\<lambda>c. c = CHR ''0'' \<or> c = CHR ''.'' \<or> c = CHR ''-'')
       (takeWhile (\<lambda>c. c \<noteq> CHR ''e'' \<and> c \<noteq> CHR ''E'') n)"

text \<open>ToBoolean, as \<^verbatim>\<open>||\<close> applies it.\<close>

fun truthy :: "json \<Rightarrow> bool" where
  "truthy JNull = False"
| "truthy (JBool b) = b"
| "truthy (JNum n) = (\<not> zero_lexeme n)"
| "truthy (JStr s) = (s \<noteq> [])"
| "truthy (JArr vs) = True"
| "truthy (JObj ms) = True"

fun join :: "string \<Rightarrow> string list \<Rightarrow> string" where
  "join sep [] = []"
| "join sep [x] = x"
| "join sep (x # y # ys) = x @ sep @ join sep (y # ys)"

text \<open>ToString, as \<^verbatim>\<open>+=\<close> on a string applies it. The interface OllamaGenerateResponse
  declares \<^verbatim>\<open>response: string\<close>; for a number the runtime prints the double it denotes,
  which is the lexeme itself for an integer written without sign, fraction or exponent of
  at most 15 digits, and only those are printed faithfully here.\<close>

fun toString :: "json \<Rightarrow> string" where
  "toString JNull = ''null''"
| "toString (JBool b) = (if b then ''true'' else ''false'')"
| "toString (JNum n) = n"
| "toString (JStr s) = s"
| "toString (JArr vs) =
     join '','' (map (\<lambda>v. if v = JNull then [] else toString v) vs)"
| "toString (JObj ms) = ''[object Object]''"

text \<open>\<^verbatim>\<open>parsed.response || ''\<close> as text: reading a property of \<^verbatim>\<open>null\<close> throws a
  TypeError, every other value that is not an object has no such property.\<close>

definition response_or_empty :: "json \<Rightarrow> string option" where
  "response_or_empty parsed =
     (case parsed of
        JNull \<Rightarrow> None
      | JObj ms \<Rightarrow>
          (case member ms ''response'' of
             None \<Rightarrow> Some []
           | Some v \<Rightarrow> Some (if truthy v then toString v else []))
      | _ \<Rightarrow> Some [])"

text \<open>What the \<^verbatim>\<open>try\<close> block appends for a candidate line, \<open>None\<close> when it throws.\<close>

definition parse_response :: "string \<Rightarrow> string option" where
  "parse_response jsonString =
     (case json_parse jsonString of
        None \<Rightarrow> None
      | Some parsed \<Rightarrow> response_or_empty parsed)"

section \<open>The stream accumulator of generateCommitMessage\<close>

text \<open>
  The two closure variables of the promise body. \<open>parse\<close> stands for the body of the
  \<^verbatim>\<open>try\<close> block up to the first assignment: \<^verbatim>\<open>JSON.parse(jsonString)\<close> followed by
  \<^verbatim>\<open>parsed.response || ''\<close>. It yields \<open>None\<close> when that throws and otherwise the text
  that \<^verbatim>\<open>+=\<close> appends to \<^verbatim>\<open>generatedMessage\<close>.
\<close>

record stream_state =
  fullResponse :: string
  generatedMessage :: string

definition initial_state :: stream_state where
  "initial_state = \<lparr>fullResponse = [], generatedMessage = []\<rparr>"

text \<open>One round of \<^verbatim>\<open>jsonResponses.forEach\<close>, on the pair
  (\<^verbatim>\<open>generatedMessage\<close>, \<^verbatim>\<open>processedResponse\<close>).\<close>

definition try_record ::
  "(string \<Rightarrow> string option) \<Rightarrow> string \<times> string \<Rightarrow> string \<Rightarrow> string \<times> string" where
  "try_record parse gp jsonString =
     (case parse jsonString of
        Some fragment \<Rightarrow> (fst gp @ fragment, snd gp @ jsonString @ [newline])
      | None \<Rightarrow> gp)"

definition jsonResponses :: "string \<Rightarrow> string list" where
  "jsonResponses full = filter (\<lambda>line. trim line \<noteq> []) (js_split newline full)"

text \<open>The whole \<^verbatim>\<open>forEach\<close>: \<^verbatim>\<open>generatedMessage\<close> and \<^verbatim>\<open>processedResponse\<close> after it,
  \<^verbatim>\<open>processedResponse\<close> starting empty.\<close>

definition forEach ::
  "(string \<Rightarrow> string option) \<Rightarrow> string \<Rightarrow> string list \<Rightarrow> string \<times> string" where
  "forEach parse generated lines = foldl (try_record parse) (generated, []) lines"

text \<open>The handler of \<^verbatim>\<open>stream.on('data', ...)\<close>.\<close>

definition on_data :: "(string \<Rightarrow> string option) \<Rightarrow> stream_state \<Rightarrow> string \<Rightarrow> stream_state" where
  "on_data parse st chunk =
     (let full = fullResponse st @ chunk;
          gp = forEach parse (generatedMessage st) (jsonResponses full)
      in \<lparr>fullResponse = js_substring_from full (int (length (snd gp))),
          generatedMessage = fst gp\<rparr>)"

text \<open>The first statement of the handler of \<^verbatim>\<open>stream.on('end', ...)\<close>: one last parse
  of what is left in the buffer; a failure is logged to the console only.\<close>

definition final_parse :: "(string \<Rightarrow> string option) \<Rightarrow> stream_state \<Rightarrow> string" where
  "final_parse parse st =
     (if trim (fullResponse st) \<noteq> [] then
        (case parse (fullResponse st) of
           Some fragment \<Rightarrow> generatedMessage st @ fragment
         | None \<Rightarrow> generatedMessage st)
      else generatedMessage st)"

text \<open>The rest of the end handler up to the test of \<^verbatim>\<open>cleanedMessage\<close>.\<close>

definition cleanup :: "string \<Rightarrow> string" where
  "cleanup generated =
     (let c0 = trim generated;
          c1 = (if (startsWith c0 [CHR 0x22] \<and> endsWith c0 [CHR 0x22])
                   \<or> (startsWith c0 [CHR 0x27] \<and> endsWith c0 [CHR 0x27])
                then js_substring c0 1 (int (length c0) - 1) else c0);
          c2 = trim (replace_label_ci ''commit message:'' c1);
          c3 = trim (replace_label_ci ''message:'' c2)
      in c3)"

text \<open>The data events of a stream in arrival order, then the text accumulated when the
  end event fires.\<close>

definition feed :: "(string \<Rightarrow> string option) \<Rightarrow> string list \<Rightarrow> stream_state" where
  "feed parse chunks = foldl (on_data parse) initial_state chunks"

definition accumulated :: "(string \<Rightarrow> string option) \<Rightarrow> string list \<Rightarrow> string" where
  "accumulated parse chunks = final_parse parse (feed parse chunks)"

section \<open>The prompt\<close>

text \<open>
  \<^verbatim>\<open>String.prototype.replace\<close> with a string pattern replaces the first occurrence only,
  and expands the replacement text first (GetSubstitution): \<^verbatim>\<open>$$\<close> is a dollar sign,
  \<^verbatim>\<open>$&\<close> the matched text, \<^verbatim>\<open>$`\<close> the text before the match and \<^verbatim>\<open>$'\<close> the text after
  it. A string pattern has no capture groups, so every other \<^verbatim>\<open>$\<close> stands for itself.
\<close>

fun getSubstitution :: "string \<Rightarrow> string \<Rightarrow> string \<Rightarrow> string \<Rightarrow> string" where
  "getSubstitution matched preceding following [] = []"
| "getSubstitution matched preceding following [c] = [c]"
| "getSubstitution matched preceding following (c # d # rest) =
     (if c = CHR ''$'' \<and> d = CHR ''$'' then CHR ''$'' # getSubstitution matched preceding following rest
      else if c = CHR ''$'' \<and> d = CHR ''&'' then matched @ getSubstitution matched preceding following rest
      else if c = CHR ''$'' \<and> d = CHR 0x60 then preceding @ getSubstitution matched preceding following rest
      else if c = CHR ''$'' \<and> d = CHR 0x27 then following @ getSubstitution matched preceding following rest
      else c # getSubstitution matched preceding following (d # rest))"

definition js_replace :: "string \<Rightarrow> string \<Rightarrow> string \<Rightarrow> string" where
  "js_replace s pattern replacement =
     (case indexOf s pattern of
        None \<Rightarrow> s
      | Some pos \<Rightarrow>
          (let preceding = take pos s;
               following = drop (pos + length pattern) s
           in preceding @ getSubstitution pattern preceding following replacement @ following))"

definition truncation_marker :: string where
  "truncation_marker = newline # ''... (diff truncated)''"

definition truncatedDiff :: "string \<Rightarrow> int \<Rightarrow> string" where
  "truncatedDiff diff maxDiffLength =
     (if int (length diff) > maxDiffLength
      then js_substring diff 0 maxDiffLength @ truncation_marker
      else diff)"

definition finalPrompt :: "string \<Rightarrow> string \<Rightarrow> int \<Rightarrow> string" where
  "finalPrompt promptTemplate diff maxDiffLength =
     js_replace promptTemplate ''{diff}'' (truncatedDiff diff maxDiffLength)"

section \<open>generateCommitMessage\<close>

text \<open>
  What the extension does to the editor and to the network, in the order in which it does
  it. Console output and progress reports are left out.
\<close>

datatype effect =
    ShowErrorMessage string
  | ShowWarningMessage string
  | ShowInformationMessage string
  | AxiosPost string string string
  | SetInputBoxValue string

text \<open>The settings of the section \<^verbatim>\<open>ollama-commit\<close>; \<open>None\<close> is a setting that
  \<^verbatim>\<open>config.get\<close> returns as \<^verbatim>\<open>undefined\<close>.\<close>

record config =
  apiUrl :: "string option"
  model :: "string option"
  prompt :: "string option"
  maxDiffLength :: "int option"

text \<open>The error of an \<^verbatim>\<open>error\<close> event of the stream: its message, and the data of its
  response when it is an axios error that has one.\<close>

record stream_error =
  message :: string
  response_data :: "string option"

text \<open>What \<^verbatim>\<open>await axios.post\<close> throws: an axios error with a response (status and
  the text that \<^verbatim>\<open>errorDetails?.error || errorDetails || error.response.statusText\<close>
  comes to, once an error body that is a stream has been read), an axios error with a
  request only, another axios error, another Error, or a value that is no Error.\<close>

datatype post_error =
    HttpError string string
  | NoResponse
  | AxiosError string
  | OtherError string
  | NotAnError

text \<open>What the endpoint does with a request: the post fails, or the response arrives
  and its stream emits data events and then either \<^verbatim>\<open>end\<close> or \<^verbatim>\<open>error\<close>.\<close>

datatype post_result =
    PostThrows post_error
  | StreamEnds "string list"
  | StreamFails "string list" stream_error

text \<open>A promise that has settled.\<close>

datatype 'a settled = Resolved 'a | Rejected stream_error

text \<open>JavaScript's test \<^verbatim>\<open>!s\<close> on a setting or a message that may be missing.\<close>

definition falsy :: "string option \<Rightarrow> bool" where
  "falsy s = (case s of None \<Rightarrow> True | Some t \<Rightarrow> t = [])"

definition stream_error_message :: "string \<Rightarrow> stream_error \<Rightarrow> string" where
  "stream_error_message url e =
     (case response_data e of
        Some d \<Rightarrow> ''Error streaming from Ollama: '' @ message e @ newline # ''Ollama Response: '' @ d
      | None \<Rightarrow>
          (if js_includes (message e) ''ECONNREFUSED''
           then ''Connection refused. Is Ollama running at '' @ url @ ''?''
           else ''Error streaming from Ollama: '' @ message e))"

definition post_error_message :: "string \<Rightarrow> post_error \<Rightarrow> string" where
  "post_error_message url e =
     (case e of
        HttpError status details \<Rightarrow> ''Ollama API Error ('' @ status @ ''): '' @ details
      | NoResponse \<Rightarrow> ''Could not connect to Ollama API at '' @ url @ ''. Is it running?''
      | AxiosError m \<Rightarrow> ''Axios error: '' @ m
      | OtherError m \<Rightarrow> ''Error: '' @ m
      | NotAnError \<Rightarrow> ''Failed to generate commit message.'')"

text \<open>The end handler: final parse, cleanup, and the test that decides between the
  warning and the message.\<close>

definition on_end ::
  "(string \<Rightarrow> string option) \<Rightarrow> stream_state \<Rightarrow> effect list \<times> string option settled" where
  "on_end parse st =
     (let cleanedMessage = cleanup (final_parse parse st)
      in if cleanedMessage = []
         then ([ShowWarningMessage ''Ollama returned an empty message.''], Resolved None)
         else ([], Resolved (Some cleanedMessage)))"

text \<open>The error handler shows a notice and rejects the promise.\<close>

definition on_error :: "string \<Rightarrow> stream_error \<Rightarrow> effect list \<times> string option settled" where
  "on_error url e = ([ShowErrorMessage (stream_error_message url e)], Rejected e)"

text \<open>
  \<^verbatim>\<open>generateCommitMessage(diff)\<close>. The promise of the stream is returned from inside the
  \<^verbatim>\<open>try\<close> block without \<^verbatim>\<open>await\<close>, so the \<^verbatim>\<open>catch\<close> block handles what
  \<^verbatim>\<open>await axios.post\<close> throws and nothing else: a rejection of the returned promise is the
  rejection of the function's own promise.
\<close>

definition generateCommitMessage ::
  "(string \<Rightarrow> string option) \<Rightarrow> config \<Rightarrow> (string \<Rightarrow> string \<Rightarrow> string \<Rightarrow> post_result)
     \<Rightarrow> string \<Rightarrow> effect list \<times> string option settled" where
  "generateCommitMessage parse cfg post diff =
     (if falsy (apiUrl cfg) \<or> falsy (model cfg) \<or> falsy (prompt cfg) then
        ([ShowErrorMessage
            ''Ollama Commit configuration is missing (API URL, Model, or Prompt). Please check settings.''],
         Resolved None)
      else
        (let url = the (apiUrl cfg);
             m = the (model cfg);
             p = finalPrompt (the (prompt cfg)) diff
                   (case maxDiffLength cfg of None \<Rightarrow> 4000 | Some n \<Rightarrow> n)
         in case post url m p of
              PostThrows e \<Rightarrow>
                ([AxiosPost url m p, ShowErrorMessage (post_error_message url e)], Resolved None)
            | StreamEnds chunks \<Rightarrow>
                (let r = on_end parse (feed parse chunks) in (AxiosPost url m p # fst r, snd r))
            | StreamFails chunks e \<Rightarrow>
                (let r = on_error url e in (AxiosPost url m p # fst r, snd r))))"

section \<open>The command ollama-commit.generate\<close>

datatype diff_result = DiffThrows string | Diff string

record repository =
  staged :: diff_result
  hasInputBox :: bool

datatype git_extension =
    NoExtension
  | NoAPI
  | ExtensionThrows string
  | GitAPI "repository list"

definition getGitAPI :: "git_extension \<Rightarrow> effect list \<times> repository list option" where
  "getGitAPI ext =
     (case ext of
        NoExtension \<Rightarrow> ([ShowErrorMessage ''Git extension is not available.''], None)
      | NoAPI \<Rightarrow> ([ShowErrorMessage ''Unable to get Git API.''], None)
      | ExtensionThrows m \<Rightarrow> ([ShowErrorMessage (''Error getting Git API: '' @ m)], None)
      | GitAPI repositories \<Rightarrow> ([], Some repositories))"

definition getStagedDiff :: "repository list \<Rightarrow> effect list \<times> string option" where
  "getStagedDiff repositories =
     (case repositories of
        [] \<Rightarrow> ([ShowInformationMessage ''No Git repository found.''], None)
      | repo # _ \<Rightarrow>
          (case staged repo of
             DiffThrows m \<Rightarrow> ([ShowErrorMessage (''Error getting git diff: '' @ m)], None)
           | Diff d \<Rightarrow>
               (if d = [] then ([ShowInformationMessage ''No staged changes found.''], None)
                else ([], Some d))))"

text \<open>Step 3 of the command: what happens to the message that was generated.\<close>

definition populate :: "repository \<Rightarrow> string option \<Rightarrow> effect list" where
  "populate repo generated =
     (if \<not> falsy generated \<and> hasInputBox repo then
        [SetInputBoxValue (the generated),
         ShowInformationMessage ''Ollama commit message generated.'']
      else if generated = None then []
      else [ShowWarningMessage ''Could not find Git commit input box.''])"

text \<open>The command handler. Neither it nor \<^verbatim>\<open>withProgress\<close> catches anything, so a
  rejection of \<^verbatim>\<open>generateCommitMessage\<close> is the rejection of the handler's promise.\<close>

definition command_handler ::
  "(string \<Rightarrow> string option) \<Rightarrow> config \<Rightarrow> (string \<Rightarrow> string \<Rightarrow> string \<Rightarrow> post_result)
     \<Rightarrow> git_extension \<Rightarrow> effect list \<times> unit settled" where
  "command_handler parse cfg post ext =
     (case getGitAPI ext of
        (fx, None) \<Rightarrow> (fx, Resolved ())
      | (fx, Some repositories) \<Rightarrow>
          (case repositories of
             [] \<Rightarrow>
               (fx @ [ShowInformationMessage ''No Git repository found in the workspace.''],
                Resolved ())
           | repo # _ \<Rightarrow>
               (case getStagedDiff repositories of
                  (fx1, None) \<Rightarrow> (fx @ fx1, Resolved ())
                | (fx1, Some diff) \<Rightarrow>
                    (case generateCommitMessage parse cfg post diff of
                       (fx2, Rejected e) \<Rightarrow> (fx @ fx1 @ fx2, Rejected e)
                     | (fx2, Resolved generated) \<Rightarrow>
                         (fx @ fx1 @ fx2 @ populate repo generated, Resolved ())))))"

section \<open>Streams of records\<close>

text \<open>The text of a stream in which every line is followed by a newline.\<close>

definition stream_text :: "string list \<Rightarrow> string" where
  "stream_text ls = concat (map (\<lambda>l. l @ [newline]) ls)"

text \<open>The fragments of the lines that parse, in the order of the lines.\<close>

definition fragments :: "(string \<Rightarrow> string option) \<Rightarrow> string list \<Rightarrow> string" where
  "fragments parse ls = concat (map (\<lambda>l. case parse l of Some f \<Rightarrow> f | None \<Rightarrow> []) ls)"

text \<open>A line that holds one record: no newline inside, not blank, and it parses.\<close>

definition record_line :: "(string \<Rightarrow> string option) \<Rightarrow> string \<Rightarrow> bool" where
  "record_line parse l = (newline \<notin> set l \<and> trim l \<noteq> [] \<and> parse l \<noteq> None)"

text \<open>A record line that no chunk boundary can cut into something that parses: every
  proper prefix of it is blank or does not parse. A JSON object written without whitespace
  after its closing brace is such a line.\<close>

definition compact_line :: "(string \<Rightarrow> string option) \<Rightarrow> string \<Rightarrow> bool" where
  "compact_line parse l =
     (record_line parse l
      \<and> list_all (\<lambda>n. trim (take n l) = [] \<or> parse (take n l) = None) [0..<length l])"

text \<open>A text delivered one character per chunk.\<close>

definition bytewise :: "string \<Rightarrow> string list" where
  "bytewise s = map (\<lambda>c. [c]) s"

section \<open>Inputs used in the examples\<close>

text \<open>An endpoint that answers every request alike.\<close>

definition always :: "post_result \<Rightarrow> string \<Rightarrow> string \<Rightarrow> string \<Rightarrow> post_result" where
  "always r url m p = r"

definition example_config :: config where
  "example_config =
     \<lparr>apiUrl = Some ''http://localhost:11434/api/generate'', model = Some ''llama3'',
      prompt = Some ''Commit message for: {diff}'', maxDiffLength = None\<rparr>"

definition example_repository :: repository where
  "example_repository = \<lparr>staged = Diff ''+x'', hasInputBox = True\<rparr>"

text \<open>The notice of the configuration check.\<close>

definition missing_configuration :: string where
  "missing_configuration =
     ''Ollama Commit configuration is missing (API URL, Model, or Prompt). Please check settings.''"

section \<open>The cleanup as the specification words it\<close>

text \<open>A string wrapped in a matching pair of straight quotes loses one layer of them.\<close>

definition strip_quote_layer :: "string \<Rightarrow> string" where
  "strip_quote_layer s =
     (if 2 \<le> length s \<and> hd s = last s \<and> (hd s = CHR 0x22 \<or> hd s = CHR 0x27)
      then butlast (tl s) else s)"

text \<open>A leading label, whatever the case of its letters, is stripped once.\<close>

definition strip_label :: "string \<Rightarrow> string \<Rightarrow> string" where
  "strip_label label s =
     (if length label \<le> length s \<and> map ascii_lower (take (length label) s) = label
      then drop (length label) s else s)"

text \<open>Trim; strip one layer of quotes; strip the label \<^verbatim>\<open>commit message:\<close> and trim; strip
  the label \<^verbatim>\<open>message:\<close> and trim.\<close>

definition cleanup_spec :: "string \<Rightarrow> string" where
  "cleanup_spec s =
     trim (strip_label ''message:'' (trim (strip_label ''commit message:''
       (strip_quote_layer (trim s)))))"


section \<open>Cleanup\<close>

lemma js_substring_inner:
  assumes "2 \<le> length s"
  shows "js_substring s 1 (int (length s) - 1) = butlast (tl s)"
proof -
  have "nat (int (length s) - 1 - 1) = length s - 2"
    using assms by linarith
  with assms show ?thesis
    by (simp add: js_substring_def Let_def butlast_conv_take drop_Suc min_def max_def numeral_2_eq_2)
qed

lemma js_substring_single: "length s = 1 \<Longrightarrow> js_substring s 1 (int (length s) - 1) = s"
  by (simp add: js_substring_def Let_def)

lemma startsWith_char: "startsWith s [q] = (s \<noteq> [] \<and> hd s = q)"
  by (cases s) (auto simp: startsWith_def)

lemma endsWith_char: "endsWith s [q] = (s \<noteq> [] \<and> last s = q)"
  by (cases s rule: rev_cases) (auto simp: endsWith_def)

lemma replace_label_ci_eq: "replace_label_ci label s = strip_label label s"
proof (cases "length label \<le> length s")
  case True
  then show ?thesis by (simp add: replace_label_ci_def strip_label_def)
next
  case False
  then have "length (map ascii_lower (take (length label) s)) \<noteq> length label" by simp
  then have "map ascii_lower (take (length label) s) \<noteq> label" by auto
  with False show ?thesis by (simp add: replace_label_ci_def strip_label_def)
qed

lemma quote_strip_eq:
  "(if (startsWith s [CHR 0x22] \<and> endsWith s [CHR 0x22])
        \<or> (startsWith s [CHR 0x27] \<and> endsWith s [CHR 0x27])
    then js_substring s 1 (int (length s) - 1) else s) = strip_quote_layer s"
proof (cases "2 \<le> length s")
  case True
  then have "s \<noteq> []" by auto
  with True show ?thesis
    by (auto simp: startsWith_char endsWith_char strip_quote_layer_def js_substring_inner)
next
  case False
  then have "length s = 0 \<or> length s = 1" by linarith
  then show ?thesis
  proof
    assume "length s = 0"
    then show ?thesis
      by (simp add: startsWith_char endsWith_char strip_quote_layer_def)
  next
    assume one: "length s = 1"
    have "js_substring s 1 (int (length s) - 1) = s"
      using one by (rule js_substring_single)
    with one show ?thesis
      by (simp add: strip_quote_layer_def)
  qed
qed

text \<open>
  C4. For every accumulated string the cleanup of the end handler is: trim; if the trimmed
  string starts and ends with a matching pair of straight quotes, strip exactly one layer;
  strip one leading case-insensitive label \<^verbatim>\<open>commit message:\<close> and trim; strip one leading
  case-insensitive label \<^verbatim>\<open>message:\<close> and trim. In particular the text
  \<^verbatim>\<open>"Refactor auth module"\<close>, quotes included, becomes \<^verbatim>\<open>Refactor auth module\<close>, and
  \<^verbatim>\<open>Commit Message: Add retry logic\<close> becomes \<^verbatim>\<open>Add retry logic\<close>.
\<close>

theorem cleanup_postcondition:
  \<open>(\<forall>s. cleanup s = cleanup_spec s)
   \<and> cleanup ''"Refactor auth module"'' = ''Refactor auth module''
   \<and> cleanup ''Commit Message: Add retry logic'' = ''Add retry logic''\<close>
proof (intro conjI allI)
  fix s
  show "cleanup s = cleanup_spec s"
    unfolding cleanup_def cleanup_spec_def Let_def quote_strip_eq replace_label_ci_eq ..
next
  show \<open>cleanup ''"Refactor auth module"'' = ''Refactor auth module''\<close>
    by code_simp
next
  show "cleanup ''Commit Message: Add retry logic'' = ''Add retry logic''"
    by code_simp
qed

text \<open>
  C9, as stated, fails: when the trimmed text is the one character \<^verbatim>\<open>"\<close>, the test for
  quotes succeeds, but \<^verbatim>\<open>substring(1, 0)\<close> swaps its arguments and returns the character
  itself. The cleaned message is that character, not the empty string, and the promise
  resolves with it instead of the warning.
\<close>

theorem single_quote_counterexample:
  \<open>cleanup ''"'' = ''"''
   \<and> on_end parse_response \<lparr>fullResponse = [], generatedMessage = ''"''\<rparr>
       = ([], Resolved (Some ''"''))\<close>
  by code_simp

lemma trim_single: "\<not> js_ws q \<Longrightarrow> trim [q] = [q]"
  by (simp add: trim_def)

lemma replace_label_ci_short: "length s < length label \<Longrightarrow> replace_label_ci label s = s"
proof -
  assume "length s < length label"
  then have "length (map ascii_lower (take (length label) s)) \<noteq> length label" by simp
  then have "map ascii_lower (take (length label) s) \<noteq> label" by auto
  then show ?thesis by (simp add: replace_label_ci_def)
qed

text \<open>
  C9, amended. For an accumulated string whose trimmed form is a single quote character
  (\<^verbatim>\<open>"\<close> or \<^verbatim>\<open>'\<close>), the test for quotes succeeds on that one character, the stripping
  \<^verbatim>\<open>substring(1, length - 1)\<close> returns the character unchanged, the cleaned message is that
  character, and the end handler resolves with it and shows no warning.
\<close>

theorem single_quote_kept:
  assumes "trim generated = [q]" and "q = CHR 0x22 \<or> q = CHR 0x27"
  shows "startsWith (trim generated) [q] \<and> endsWith (trim generated) [q]
     \<and> js_substring (trim generated) 1 (int (length (trim generated)) - 1) = [q]
     \<and> cleanup generated = [q]
     \<and> (final_parse parse st = generated \<longrightarrow> on_end parse st = ([], Resolved (Some [q])))"
proof -
  from assms(2) have nws: "\<not> js_ws q" by (auto simp: js_ws_def)
  have t: "startsWith [q] [q] \<and> endsWith [q] [q]"
    by (simp add: startsWith_def endsWith_def)
  have sub: "js_substring [q] 1 (int (length [q]) - 1) = [q]"
    by (simp add: js_substring_def)
  have c: "cleanup generated = [q]"
    unfolding cleanup_def Let_def assms(1)
    using t sub by (simp add: replace_label_ci_short trim_single [OF nws])
  show ?thesis
    using t sub c by (simp add: assms(1) on_end_def Let_def)
qed

theorem single_quote_kept_witness:
  \<open>trim '' "  '' = ''"'' \<and> cleanup '' "  '' = ''"''
   \<and> on_end parse_response \<lparr>fullResponse = [], generatedMessage = '' "  ''\<rparr>
       = ([], Resolved (Some ''"''))\<close>
proof -
  have a: \<open>trim '' "  '' = ''"''\<close> by code_simp
  have b: \<open>final_parse parse_response \<lparr>fullResponse = [], generatedMessage = '' "  ''\<rparr> = '' "  ''\<close>
    by code_simp
  from single_quote_kept [OF a, of parse_response \<open>\<lparr>fullResponse = [], generatedMessage = '' "  ''\<rparr>\<close>] a b
  show ?thesis by simp
qed

section \<open>Configuration, results and errors\<close>

lemma generate_config_missing:
  assumes "falsy (apiUrl cfg) \<or> falsy (model cfg) \<or> falsy (prompt cfg)"
  shows "generateCommitMessage parse cfg post diff
           = ([ShowErrorMessage missing_configuration], Resolved None)"
  using assms by (simp add: generateCommitMessage_def missing_configuration_def)

lemma falsy_None: "falsy None"
  by (simp add: falsy_def)

text \<open>
  C8. If one of the settings apiUrl, model and prompt is absent, generateCommitMessage
  shows the error notice and resolves with no message, and posts no request; whenever it
  posts a request, all three settings are present.
\<close>

theorem config_missing:
  "(apiUrl cfg = None \<or> model cfg = None \<or> prompt cfg = None \<longrightarrow>
      generateCommitMessage parse cfg post diff
        = ([ShowErrorMessage missing_configuration], Resolved None)
      \<and> AxiosPost u m p \<notin> set (fst (generateCommitMessage parse cfg post diff)))
   \<and> (AxiosPost u m p \<in> set (fst (generateCommitMessage parse cfg post diff)) \<longrightarrow>
      apiUrl cfg \<noteq> None \<and> model cfg \<noteq> None \<and> prompt cfg \<noteq> None)"
proof -
  have missing: "generateCommitMessage parse cfg post diff
        = ([ShowErrorMessage missing_configuration], Resolved None)"
    if "apiUrl cfg = None \<or> model cfg = None \<or> prompt cfg = None"
  proof (rule generate_config_missing)
    from that show "falsy (apiUrl cfg) \<or> falsy (model cfg) \<or> falsy (prompt cfg)"
      using falsy_None by metis
  qed
  have none: "AxiosPost u m p \<notin> set (fst (generateCommitMessage parse cfg post diff))"
    if "apiUrl cfg = None \<or> model cfg = None \<or> prompt cfg = None"
    using missing [OF that] by simp
  show ?thesis
  proof (intro conjI impI)
    assume h: "apiUrl cfg = None \<or> model cfg = None \<or> prompt cfg = None"
    show "generateCommitMessage parse cfg post diff
        = ([ShowErrorMessage missing_configuration], Resolved None)"
      using missing [OF h] .
    show "AxiosPost u m p \<notin> set (fst (generateCommitMessage parse cfg post diff))"
      using none [OF h] .
  next
    assume i: "AxiosPost u m p \<in> set (fst (generateCommitMessage parse cfg post diff))"
    have "\<not> (apiUrl cfg = None \<or> model cfg = None \<or> prompt cfg = None)"
      using none i by blast
    then show "apiUrl cfg \<noteq> None" and "model cfg \<noteq> None" and "prompt cfg \<noteq> None"
      by simp_all
  qed
qed

theorem config_missing_witness:
  "generateCommitMessage parse_response (example_config\<lparr>model := None\<rparr>)
       (always (StreamEnds [])) ''+x''
     = ([ShowErrorMessage missing_configuration], Resolved None)
   \<and> AxiosPost ''http://localhost:11434/api/generate'' ''llama3'' ''Commit message for: +x''
       \<in> set (fst (generateCommitMessage parse_response example_config
                     (always (StreamEnds [])) ''+x''))
   \<and> apiUrl example_config \<noteq> None \<and> model example_config \<noteq> None
   \<and> prompt example_config \<noteq> None"
proof -
  have a: "model (example_config\<lparr>model := None\<rparr>) = None" by simp
  have b: "finalPrompt ''Commit message for: {diff}'' ''+x'' 4000 = ''Commit message for: +x''"
    by code_simp
  have c: "AxiosPost ''http://localhost:11434/api/generate'' ''llama3'' ''Commit message for: +x''
       \<in> set (fst (generateCommitMessage parse_response example_config
                     (always (StreamEnds [])) ''+x''))"
    by (simp add: generateCommitMessage_def example_config_def falsy_def always_def b Let_def)
  from config_missing [of "example_config\<lparr>model := None\<rparr>" parse_response
      "always (StreamEnds [])" "''+x''"] a
    config_missing [of example_config parse_response "always (StreamEnds [])" "''+x''"
      "''http://localhost:11434/api/generate''" "''llama3''" "''Commit message for: +x''"] c
  show ?thesis by blast
qed



lemma generate_stream_fails:
  assumes "\<not> falsy (apiUrl cfg)" "\<not> falsy (model cfg)" "\<not> falsy (prompt cfg)"
    and "post (the (apiUrl cfg)) (the (model cfg))
           (finalPrompt (the (prompt cfg)) diff
              (case maxDiffLength cfg of None \<Rightarrow> 4000 | Some n \<Rightarrow> n)) = StreamFails chunks e"
  shows "generateCommitMessage parse cfg post diff =
      ([AxiosPost (the (apiUrl cfg)) (the (model cfg))
           (finalPrompt (the (prompt cfg)) diff
              (case maxDiffLength cfg of None \<Rightarrow> 4000 | Some n \<Rightarrow> n)),
        ShowErrorMessage (stream_error_message (the (apiUrl cfg)) e)],
       Rejected e)"
  using assms by (simp add: generateCommitMessage_def Let_def on_error_def)

lemma command_handler_generates:
  assumes "staged repo = Diff d" "d \<noteq> []"
  shows "command_handler parse cfg post (GitAPI (repo # repos)) =
     (case generateCommitMessage parse cfg post d of
        (fx, Rejected e) \<Rightarrow> (fx, Rejected e)
      | (fx, Resolved generated) \<Rightarrow> (fx @ populate repo generated, Resolved ()))"
  using assms by (simp add: command_handler_def getGitAPI_def getStagedDiff_def)



text \<open>A post that fails ends in a notice and no message; a stream that fails rejects.\<close>

lemma post_failure_resolves:
  assumes "\<not> falsy (apiUrl cfg)" "\<not> falsy (model cfg)" "\<not> falsy (prompt cfg)"
    and "post (the (apiUrl cfg)) (the (model cfg))
           (finalPrompt (the (prompt cfg)) diff
              (case maxDiffLength cfg of None \<Rightarrow> 4000 | Some n \<Rightarrow> n)) = PostThrows e"
  shows "snd (generateCommitMessage parse cfg post diff) = Resolved None"
  using assms by (simp add: generateCommitMessage_def Let_def)

lemma stream_failure_rejects:
  assumes "\<not> falsy (apiUrl cfg)" "\<not> falsy (model cfg)" "\<not> falsy (prompt cfg)"
    and "staged repo = Diff d" "d \<noteq> []"
    and "post (the (apiUrl cfg)) (the (model cfg))
           (finalPrompt (the (prompt cfg)) d
              (case maxDiffLength cfg of None \<Rightarrow> 4000 | Some n \<Rightarrow> n)) = StreamFails chunks e"
  shows "snd (command_handler parse cfg post (GitAPI (repo # repos))) = Rejected e"
proof -
  have "generateCommitMessage parse cfg post d =
      ([AxiosPost (the (apiUrl cfg)) (the (model cfg))
           (finalPrompt (the (prompt cfg)) d
              (case maxDiffLength cfg of None \<Rightarrow> 4000 | Some n \<Rightarrow> n)),
        ShowErrorMessage (stream_error_message (the (apiUrl cfg)) e)],
       Rejected e)"
    using assms(1,2,3,6) by (rule generate_stream_fails)
  then show ?thesis
    by (simp add: command_handler_generates [OF assms(4,5)])
qed

text \<open>
  C7 at a stream that emits \<^verbatim>\<open>error\<close> after the response has arrived: the error handler
  shows its notice and rejects the promise, and the promise of the command handler is
  rejected with that error.
\<close>

theorem stream_error_rejects_command:
  "command_handler parse_response example_config
     (always (StreamFails [] \<lparr>message = ''read ECONNRESET'', response_data = None\<rparr>))
     (GitAPI [example_repository])
   = ([AxiosPost ''http://localhost:11434/api/generate'' ''llama3'' ''Commit message for: +x'',
       ShowErrorMessage ''Error streaming from Ollama: read ECONNRESET''],
      Rejected \<lparr>message = ''read ECONNRESET'', response_data = None\<rparr>)"
  by code_simp

section \<open>The prompt\<close>

text \<open>Without a dollar sign in the diff the prompt is the template with the diff, truncated
  when it is longer than the maximum, in place of the first placeholder.\<close>

lemma getSubstitution_plain:
  "CHR ''$'' \<notin> set replacement
     \<Longrightarrow> getSubstitution matched preceding following replacement = replacement"
  by (induction matched preceding following replacement rule: getSubstitution.induct) auto

lemma js_substring_take: "js_substring s 0 n = take (nat n) s"
  by (simp add: js_substring_def Let_def min_def max_def)

lemma truncatedDiff_eq:
  "truncatedDiff diff n =
     (if int (length diff) > n then take (nat n) diff @ truncation_marker else diff)"
  by (simp add: truncatedDiff_def js_substring_take)

lemma truncatedDiff_plain:
  assumes "CHR ''$'' \<notin> set diff"
  shows "CHR ''$'' \<notin> set (truncatedDiff diff n)"
proof -
  have "CHR ''$'' \<notin> set truncation_marker"
    by (simp add: truncation_marker_def newline_def)
  moreover have "CHR ''$'' \<notin> set (take (nat n) diff)"
    using assms by (auto dest: in_set_takeD)
  ultimately show ?thesis
    using assms by (simp add: truncatedDiff_eq)
qed

lemma indexOf_occurs:
  "indexOf s p = Some i \<Longrightarrow> take (length p) (drop i s) = p"
proof (induction s arbitrary: i)
  case Nil
  then show ?case by (simp split: if_splits)
next
  case (Cons c cs)
  then show ?case by (auto split: if_splits)
qed

lemma indexOf_first:
  "indexOf s p = Some i \<Longrightarrow> j < i \<Longrightarrow> take (length p) (drop j s) \<noteq> p"
proof (induction s arbitrary: i j)
  case Nil
  then show ?case by (simp split: if_splits)
next
  case (Cons c cs)
  from Cons.prems obtain i' where i': "i = Suc i'" "indexOf cs p = Some i'"
    and no: "take (length p) (c # cs) \<noteq> p"
    by (auto split: if_splits)
  show ?case
  proof (cases j)
    case 0
    with no show ?thesis by simp
  next
    case (Suc j')
    with Cons.prems(2) i'(1) have "j' < i'" by simp
    from Cons.IH [OF i'(2) this] Suc show ?thesis by simp
  qed
qed

lemma prompt_without_dollar:
  assumes "CHR ''$'' \<notin> set diff"
    and "indexOf promptTemplate ''{diff}'' = Some i"
  shows "finalPrompt promptTemplate diff n
           = take i promptTemplate @ truncatedDiff diff n @ drop (i + 6) promptTemplate"
proof -
  have six: "length ''{diff}'' = 6" by simp
  have "finalPrompt promptTemplate diff n
      = take i promptTemplate
        @ getSubstitution ''{diff}'' (take i promptTemplate)
            (drop (i + length ''{diff}'') promptTemplate) (truncatedDiff diff n)
        @ drop (i + length ''{diff}'') promptTemplate"
    unfolding finalPrompt_def js_replace_def assms(2) Let_def by simp
  then show ?thesis
    unfolding getSubstitution_plain [OF truncatedDiff_plain [OF assms(1)]] six .
qed

lemma prompt_example:
  "finalPrompt ''Commit message for: {diff}'' ''+abcdef'' 3
     = ''Commit message for: '' @ ''+ab'' @ truncation_marker"
  by code_simp

text \<open>
  C5 at a diff of eight characters that holds \<^verbatim>\<open>$$\<close>, with the maximum at 4000: the diff is
  not truncated, and the prompt holds \<^verbatim>\<open>$\<close> where the diff has \<^verbatim>\<open>$$\<close>.
\<close>

theorem dollar_in_diff_rewritten:
  "finalPrompt ''Commit message for: {diff}'' ''+kill $$'' 4000 = ''Commit message for: +kill $''
   \<and> truncatedDiff ''+kill $$'' 4000 = ''+kill $$''"
  by code_simp

section \<open>The data handler\<close>

lemma js_split_not_Nil: "js_split sep s \<noteq> []"
  by (induction s) (auto split: list.splits)

lemma js_split_line:
  "sep \<notin> set l \<Longrightarrow> js_split sep (l @ sep # rest) = l # js_split sep rest"
proof (induction l)
  case Nil
  then show ?case by simp
next
  case (Cons c l)
  then show ?case by auto
qed

lemma js_split_no_sep: "sep \<notin> set t \<Longrightarrow> js_split sep t = [t]"
  by (induction t) auto

lemma stream_text_Cons: "stream_text (l # ls) = l @ newline # stream_text ls"
  by (simp add: stream_text_def)

lemma stream_text_Nil: "stream_text [] = []"
  by (simp add: stream_text_def)

lemma stream_text_append: "stream_text (xs @ ys) = stream_text xs @ stream_text ys"
  by (simp add: stream_text_def)

lemma js_split_stream_text:
  "list_all (\<lambda>l. newline \<notin> set l) ls \<Longrightarrow> newline \<notin> set t
     \<Longrightarrow> js_split newline (stream_text ls @ t) = ls @ [t]"
proof (induction ls)
  case Nil
  then show ?case by (simp add: stream_text_Nil js_split_no_sep)
next
  case (Cons l ls)
  then show ?case by (simp add: stream_text_Cons js_split_line)
qed

lemma trim_Nil: "trim [] = []"
  by (simp add: trim_def)

lemma jsonResponses_newline: "jsonResponses (newline # s) = jsonResponses s"
  by (simp add: jsonResponses_def trim_Nil)

lemma jsonResponses_stream_text:
  assumes "list_all (record_line parse) ls" and "newline \<notin> set t"
  shows "jsonResponses (stream_text ls @ t) = ls @ (if trim t = [] then [] else [t])"
proof -
  from assms(1) have a: "list_all (\<lambda>l. newline \<notin> set l) ls"
    by (simp add: list_all_iff record_line_def)
  from assms(1) have b: "filter (\<lambda>line. trim line \<noteq> []) ls = ls"
    by (simp add: list_all_iff record_line_def filter_id_conv)
  show ?thesis
    by (simp add: jsonResponses_def js_split_stream_text [OF a assms(2)] b)
qed

lemma try_record_None: "parse l = None \<Longrightarrow> try_record parse gp l = gp"
  by (simp add: try_record_def)

lemma try_record_Some:
  "parse l = Some f \<Longrightarrow> try_record parse (g, p) l = (g @ f, p @ l @ [newline])"
  by (simp add: try_record_def)

lemma foldl_try_record:
  "foldl (try_record parse) (g, p) ls =
     (g @ fragments parse ls, p @ stream_text (filter (\<lambda>l. parse l \<noteq> None) ls))"
proof (induction ls arbitrary: g p)
  case Nil
  then show ?case by (simp add: fragments_def stream_text_def)
next
  case (Cons l ls)
  show ?case
  proof (cases "parse l")
    case None
    then show ?thesis
      by (simp add: Cons.IH try_record_None fragments_def)
  next
    case (Some f)
    then show ?thesis
      by (simp add: Cons.IH try_record_Some fragments_def stream_text_Cons)
  qed
qed

lemma forEach_eq:
  "forEach parse g ls =
     (g @ fragments parse ls, stream_text (filter (\<lambda>l. parse l \<noteq> None) ls))"
  by (simp add: forEach_def foldl_try_record)

lemma js_substring_from_drop: "js_substring_from s (int n) = drop n s"
proof (cases "n \<le> length s")
  case True
  then show ?thesis
    by (simp add: js_substring_from_def js_substring_def Let_def min_def max_def)
next
  case False
  then show ?thesis
    by (simp add: js_substring_from_def js_substring_def Let_def min_def max_def)
qed

lemma on_data_eq:
  "on_data parse st chunk =
     \<lparr>fullResponse = drop (length (stream_text (filter (\<lambda>l. parse l \<noteq> None)
                         (jsonResponses (fullResponse st @ chunk)))))
                       (fullResponse st @ chunk),
      generatedMessage = generatedMessage st
          @ fragments parse (jsonResponses (fullResponse st @ chunk))\<rparr>"
  by (simp add: on_data_def Let_def forEach_eq js_substring_from_drop)

lemma fragments_append: "fragments parse (xs @ ys) = fragments parse xs @ fragments parse ys"
  by (simp add: fragments_def)

lemma filter_record_lines:
  "list_all (record_line parse) ls \<Longrightarrow> filter (\<lambda>l. parse l \<noteq> None) ls = ls"
  by (simp add: list_all_iff record_line_def filter_id_conv)

lemma on_data_aligned:
  assumes "fullResponse st @ chunk = stream_text ls @ t"
    and "list_all (record_line parse) ls"
    and "newline \<notin> set t"
  shows "(trim t = [] \<or> parse t = None \<longrightarrow>
            on_data parse st chunk =
              \<lparr>fullResponse = t,
               generatedMessage = generatedMessage st @ fragments parse ls\<rparr>)
       \<and> (trim t \<noteq> [] \<and> parse t \<noteq> None \<longrightarrow>
            on_data parse st chunk =
              \<lparr>fullResponse = [],
               generatedMessage = generatedMessage st @ fragments parse ls @ the (parse t)\<rparr>)"
proof (intro conjI impI)
  assume h: "trim t = [] \<or> parse t = None"
  have "filter (\<lambda>l. parse l \<noteq> None) (jsonResponses (stream_text ls @ t)) = ls"
    using h by (auto simp del: not_None_eq
        simp add: jsonResponses_stream_text [OF assms(2,3)] filter_record_lines [OF assms(2)])
  moreover have "fragments parse (jsonResponses (stream_text ls @ t)) = fragments parse ls"
    using h by (auto simp: jsonResponses_stream_text [OF assms(2,3)] fragments_append fragments_def)
  ultimately show "on_data parse st chunk =
              \<lparr>fullResponse = t,
               generatedMessage = generatedMessage st @ fragments parse ls\<rparr>"
    by (simp add: on_data_eq assms(1))
next
  assume h: "trim t \<noteq> [] \<and> parse t \<noteq> None"
  have "filter (\<lambda>l. parse l \<noteq> None) (jsonResponses (stream_text ls @ t)) = ls @ [t]"
    using h by (simp del: not_None_eq
        add: jsonResponses_stream_text [OF assms(2,3)] filter_record_lines [OF assms(2)])
  moreover have "fragments parse (jsonResponses (stream_text ls @ t))
      = fragments parse ls @ the (parse t)"
    using h by (auto simp: jsonResponses_stream_text [OF assms(2,3)] fragments_append fragments_def)
  ultimately show "on_data parse st chunk =
              \<lparr>fullResponse = [],
               generatedMessage = generatedMessage st @ fragments parse ls @ the (parse t)\<rparr>"
    by (simp add: on_data_eq assms(1) stream_text_append stream_text_Cons stream_text_Nil)
qed


lemma feed_lines:
  "list_all (record_line parse) ls \<Longrightarrow>
     foldl (on_data parse) \<lparr>fullResponse = [], generatedMessage = g\<rparr>
        (map (\<lambda>l. l @ [newline]) ls)
       = \<lparr>fullResponse = [], generatedMessage = g @ fragments parse ls\<rparr>"
proof (induction ls arbitrary: g)
  case Nil
  then show ?case by (simp add: fragments_def)
next
  case (Cons l ls)
  from Cons.prems have l: "list_all (record_line parse) [l]" and ls: "list_all (record_line parse) ls"
    by simp_all
  have "fullResponse \<lparr>fullResponse = [], generatedMessage = g\<rparr> @ (l @ [newline])
          = stream_text [l] @ []"
    by (simp add: stream_text_def)
  from on_data_aligned [OF this l]
  have "on_data parse \<lparr>fullResponse = [], generatedMessage = g\<rparr> (l @ [newline])
          = \<lparr>fullResponse = [], generatedMessage = g @ fragments parse [l]\<rparr>"
    by (simp add: trim_Nil)
  then show ?case
    by (simp add: Cons.IH [OF ls] fragments_def)
qed

lemma member_append:
  "member (xs @ ys) k = (case member ys k of Some w \<Rightarrow> Some w | None \<Rightarrow> member xs k)"
  by (induction xs) (auto split: option.splits)

lemma member_done:
  "member (ms1 @ (''done'', d) # ms2) ''response'' = member (ms1 @ ms2) ''response''"
  by (simp add: member_append split: option.splits)

text \<open>
  C3, as stated, fails: the buffer holds one record and no newline, so the record is the last
  candidate line; the data event parses it, appends its fragment and empties the buffer.
\<close>

theorem last_line_parsed_counterexample:
  \<open>on_data parse_response initial_state ''{"response":"a"}''
     = \<lparr>fullResponse = [], generatedMessage = ''a''\<rparr>\<close>
  by code_simp

lemma js_split_inverse:
  "stream_text (butlast (js_split newline s)) @ last (js_split newline s) = s"
proof (induction s)
  case Nil
  then show ?case by (simp add: stream_text_Nil)
next
  case (Cons c cs)
  show ?case
  proof (cases "c = newline")
    case True
    with Cons show ?thesis
      by (simp add: js_split_not_Nil stream_text_Cons)
  next
    case False
    obtain l ls where sp: "js_split newline cs = l # ls"
      using js_split_not_Nil [of newline cs] by (cases "js_split newline cs") auto
    with Cons False show ?thesis
      by (cases ls) (auto simp: stream_text_Cons stream_text_Nil)
  qed
qed

lemma js_split_last_no_sep: "sep \<notin> set (last (js_split sep s))"
proof (induction s)
  case Nil
  then show ?case by simp
next
  case (Cons c cs)
  obtain l ls where sp: "js_split sep cs = l # ls"
    using js_split_not_Nil [of sep cs] by (cases "js_split sep cs") auto
  with Cons show ?case
    by (cases ls) auto
qed

lemma jsonResponses_butlast_last:
  "jsonResponses s =
     filter (\<lambda>line. trim line \<noteq> []) (butlast (js_split newline s))
       @ (if trim (last (js_split newline s)) = [] then [] else [last (js_split newline s)])"
proof -
  have "js_split newline s = butlast (js_split newline s) @ [last (js_split newline s)]"
    using js_split_not_Nil [of newline s] by simp
  then have "jsonResponses s = filter (\<lambda>line. trim line \<noteq> [])
      (butlast (js_split newline s) @ [last (js_split newline s)])"
    by (simp add: jsonResponses_def)
  then show ?thesis by simp
qed

lemma length_stream_text_filter:
  "length (stream_text (filter P ls)) \<le> length (stream_text ls)"
  by (induction ls) (auto simp: stream_text_Cons stream_text_Nil)

lemma on_data_last_line:
  assumes "t = last (js_split newline (fullResponse st @ chunk))"
    and "earlier = filter (\<lambda>line. trim line \<noteq> [])
                     (butlast (js_split newline (fullResponse st @ chunk)))"
  shows "(trim t = [] \<or> parse t = None \<longrightarrow>
            suffix t (fullResponse (on_data parse st chunk))
          \<and> generatedMessage (on_data parse st chunk)
              = generatedMessage st @ fragments parse earlier)
       \<and> (trim t \<noteq> [] \<and> parse t \<noteq> None \<longrightarrow>
            generatedMessage (on_data parse st chunk)
              = generatedMessage st @ fragments parse earlier @ the (parse t))"
proof (intro conjI impI)
  let ?full = "fullResponse st @ chunk"
  let ?all = "butlast (js_split newline ?full)"
  assume h: "trim t = [] \<or> parse t = None"
  have j: "filter (\<lambda>l. parse l \<noteq> None) (jsonResponses ?full)
             = filter (\<lambda>l. parse l \<noteq> None) earlier"
    using h by (auto simp del: not_None_eq simp add: jsonResponses_butlast_last assms)
  have "length (stream_text (filter (\<lambda>l. parse l \<noteq> None) earlier))
          \<le> length (stream_text earlier)"
    by (rule length_stream_text_filter)
  also have "\<dots> \<le> length (stream_text ?all)"
    unfolding assms(2) by (rule length_stream_text_filter)
  finally have le: "length (stream_text (filter (\<lambda>l. parse l \<noteq> None) earlier))
          \<le> length (stream_text ?all)" .
  have full: "?full = stream_text ?all @ t"
    by (simp add: assms(1) js_split_inverse)
  have "fullResponse (on_data parse st chunk)
      = drop (length (stream_text (filter (\<lambda>l. parse l \<noteq> None) earlier))) ?full"
    by (simp add: on_data_eq j del: not_None_eq)
  also have "\<dots> = drop (length (stream_text (filter (\<lambda>l. parse l \<noteq> None) earlier)))
                     (stream_text ?all) @ t"
    using le by (subst full) simp
  finally show "suffix t (fullResponse (on_data parse st chunk))"
    by (simp add: suffix_def)
  show "generatedMessage (on_data parse st chunk)
              = generatedMessage st @ fragments parse earlier"
    using h by (auto simp: on_data_eq jsonResponses_butlast_last assms fragments_append
        fragments_def)
next
  assume h: "trim t \<noteq> [] \<and> parse t \<noteq> None"
  then show "generatedMessage (on_data parse st chunk)
              = generatedMessage st @ fragments parse earlier @ the (parse t)"
    by (auto simp: on_data_eq jsonResponses_butlast_last assms fragments_append fragments_def)
qed

text \<open>
  C3, amended. For every data event, with \<open>t\<close> the last candidate line (what follows the
  last newline of the buffered text) and \<open>earlier\<close> the candidate lines before it: if \<open>t\<close>
  is blank or does not parse, it stays at the end of the pending buffer and the event appends
  the fragments of the earlier lines only; if \<open>t\<close> is not blank and parses, the event appends
  its fragment after those of the earlier lines. When every earlier line holds a record, the
  pending buffer after the event is \<open>t\<close> in the first case and empty in the second.
\<close>

theorem last_line_consumed_when_parsed:
  assumes "t = last (js_split newline (fullResponse st @ chunk))"
    and "earlier = filter (\<lambda>line. trim line \<noteq> [])
                     (butlast (js_split newline (fullResponse st @ chunk)))"
  shows "(trim t = [] \<or> parse t = None \<longrightarrow>
            suffix t (fullResponse (on_data parse st chunk))
          \<and> generatedMessage (on_data parse st chunk)
              = generatedMessage st @ fragments parse earlier)
       \<and> (trim t \<noteq> [] \<and> parse t \<noteq> None \<longrightarrow>
            generatedMessage (on_data parse st chunk)
              = generatedMessage st @ fragments parse earlier @ the (parse t))
       \<and> (list_all (record_line parse) (butlast (js_split newline (fullResponse st @ chunk))) \<longrightarrow>
            fullResponse (on_data parse st chunk)
              = (if trim t = [] \<or> parse t = None then t else []))"
proof -
  let ?full = "fullResponse st @ chunk"
  let ?all = "butlast (js_split newline ?full)"
  have full: "?full = stream_text ?all @ t"
    by (simp add: assms(1) js_split_inverse)
  have nl: "newline \<notin> set t"
    unfolding assms(1) by (rule js_split_last_no_sep)
  have "fullResponse (on_data parse st chunk)
              = (if trim t = [] \<or> parse t = None then t else [])"
    if "list_all (record_line parse) ?all"
    using on_data_aligned [OF full that nl] by auto
  with on_data_last_line [OF assms] show ?thesis by blast
qed

theorem last_line_consumed_when_parsed_witness:
  \<open>on_data parse_response initial_state (''{"response":"a"}'' @ [newline] @ ''{"resp'')
     = \<lparr>fullResponse = ''{"resp'', generatedMessage = ''a''\<rparr>
   \<and> on_data parse_response initial_state
        (''{"response":"a"}'' @ [newline] @ ''{"response":"b"}'')
     = \<lparr>fullResponse = [], generatedMessage = ''ab''\<rparr>\<close>
proof -
  have s1: \<open>js_split newline (fullResponse initial_state
                @ (''{"response":"a"}'' @ [newline] @ ''{"resp''))
      = [''{"response":"a"}'', ''{"resp'']\<close>
    by code_simp
  have s2: \<open>js_split newline (fullResponse initial_state
                @ (''{"response":"a"}'' @ [newline] @ ''{"response":"b"}''))
      = [''{"response":"a"}'', ''{"response":"b"}'']\<close>
    by code_simp
  have ls: \<open>list_all (record_line parse_response) [''{"response":"a"}'']\<close>
    and ne: \<open>filter (\<lambda>line. trim line \<noteq> []) [''{"response":"a"}''] = [''{"response":"a"}'']\<close>
    by code_simp+
  have p1: \<open>parse_response ''{"resp'' = None\<close> by code_simp
  have p2: \<open>trim ''{"response":"b"}'' \<noteq> [] \<and> parse_response ''{"response":"b"}'' = Some ''b''\<close>
    by code_simp
  have f: \<open>fragments parse_response [''{"response":"a"}''] = ''a''\<close> by code_simp
  have bl: "butlast [x, y] = [x]" and ll: "last [x, y] = y" for x y :: string
    by simp_all
  note T1 = last_line_consumed_when_parsed [OF refl refl, where parse = parse_response
        and st = initial_state
        and chunk = \<open>''{"response":"a"}'' @ [newline] @ ''{"resp''\<close>]
  note T2 = last_line_consumed_when_parsed [OF refl refl, where parse = parse_response
        and st = initial_state
        and chunk = \<open>''{"response":"a"}'' @ [newline] @ ''{"response":"b"}''\<close>]
  have g0: "generatedMessage initial_state = []" by (simp add: initial_state_def)
  have w1: \<open>fullResponse (on_data parse_response initial_state
                (''{"response":"a"}'' @ [newline] @ ''{"resp'')) = ''{"resp''
      \<and> generatedMessage (on_data parse_response initial_state
                (''{"response":"a"}'' @ [newline] @ ''{"resp'')) = ''a''\<close>
    using T1 [unfolded s1 bl ll ne f g0] p1 ls by simp
  have w2: \<open>fullResponse (on_data parse_response initial_state
                (''{"response":"a"}'' @ [newline] @ ''{"response":"b"}'')) = []
      \<and> generatedMessage (on_data parse_response initial_state
                (''{"response":"a"}'' @ [newline] @ ''{"response":"b"}'')) = ''ab''\<close>
    using T2 [unfolded s2 bl ll ne f g0] p2 ls by simp
  have eq: "st = \<lparr>fullResponse = fullResponse st, generatedMessage = generatedMessage st\<rparr>"
    for st :: stream_state by simp
  show ?thesis
    using w1 w2
      eq [of \<open>on_data parse_response initial_state (''{"response":"a"}'' @ [newline] @ ''{"resp'')\<close>]
      eq [of \<open>on_data parse_response initial_state
        (''{"response":"a"}'' @ [newline] @ ''{"response":"b"}'')\<close>]
    by simp
qed

text \<open>
  C10. The accumulator does not look at the member \<^verbatim>\<open>done\<close>: every data event appends the
  fragment of every candidate line that parses, in the order of the lines; a stream that
  delivers one record per chunk accumulates the fragments of all its records in arrival
  order, whatever their other members are; and what is appended for a parsed object does not
  change when a member \<^verbatim>\<open>done\<close> is taken out of it.
\<close>

theorem done_flag_never_inspected:
  "generatedMessage (on_data parse st chunk)
     = generatedMessage st @ fragments parse (jsonResponses (fullResponse st @ chunk))
   \<and> (list_all (record_line parse) ls \<longrightarrow>
        accumulated parse (map (\<lambda>l. l @ [newline]) ls) = fragments parse ls)
   \<and> response_or_empty (JObj (ms1 @ (''done'', d) # ms2))
       = response_or_empty (JObj (ms1 @ ms2))"
proof (intro conjI impI)
  show "generatedMessage (on_data parse st chunk)
     = generatedMessage st @ fragments parse (jsonResponses (fullResponse st @ chunk))"
    by (simp add: on_data_eq)
next
  assume "list_all (record_line parse) ls"
  from feed_lines [OF this, of "[]"]
  show "accumulated parse (map (\<lambda>l. l @ [newline]) ls) = fragments parse ls"
    by (simp add: accumulated_def feed_def initial_state_def final_parse_def trim_Nil)
next
  show "response_or_empty (JObj (ms1 @ (''done'', d) # ms2))
       = response_or_empty (JObj (ms1 @ ms2))"
    by (simp add: response_or_empty_def member_done)
qed

theorem done_flag_never_inspected_witness:
  \<open>list_all (record_line parse_response)
      [''{"response":"Fix "}'', ''{"response":"bug","done":true}'', ''{"response":" later"}'']
   \<and> accumulated parse_response
       [''{"response":"Fix "}'' @ [newline], ''{"response":"bug","done":true}'' @ [newline],
        ''{"response":" later"}'' @ [newline]]
     = ''Fix bug later''\<close>
proof -
  have a: \<open>list_all (record_line parse_response)
      [''{"response":"Fix "}'', ''{"response":"bug","done":true}'', ''{"response":" later"}'']\<close>
    by code_simp
  have f: \<open>fragments parse_response
      [''{"response":"Fix "}'', ''{"response":"bug","done":true}'', ''{"response":" later"}'']
       = ''Fix bug later''\<close>
    by code_simp
  from done_flag_never_inspected [where parse = parse_response and ls =
      \<open>[''{"response":"Fix "}'', ''{"response":"bug","done":true}'', ''{"response":" later"}'']\<close>]
    a f
  show ?thesis by simp
qed

text \<open>
  C2 at one chunk that holds a line of 17 characters that is no JSON and then one record: the
  data event appends the record's fragment and removes the first 17 characters of the buffer,
  so the record stays in the buffer and is parsed again when the stream ends. And at a chunk
  that holds one record of 16 characters without its newline: 17 characters are counted as
  processed and the buffer is empty.
\<close>

theorem bytes_consumed_twice:
  \<open>on_data parse_response initial_state
      (''not json at all!!'' @ [newline] @ ''{"response":"a"}'' @ [newline])
     = \<lparr>fullResponse = [newline] @ ''{"response":"a"}'' @ [newline], generatedMessage = ''a''\<rparr>
   \<and> accumulated parse_response
        [''not json at all!!'' @ [newline] @ ''{"response":"a"}'' @ [newline]] = ''aa''
   \<and> length (snd (forEach parse_response [] (jsonResponses ''{"response":"a"}''))) = 17
   \<and> fullResponse (on_data parse_response initial_state ''{"response":"a"}'') = []
   \<and> length ''{"response":"a"}'' = 16\<close>
  by code_simp

section \<open>Chunk boundaries\<close>

lemma compact_line_record: "compact_line parse l \<Longrightarrow> record_line parse l"
  by (simp add: compact_line_def)

lemma compact_line_prefix:
  assumes "compact_line parse (t @ w)" and "w \<noteq> []"
  shows "trim t = [] \<or> parse t = None"
proof -
  from assms(1) have "list_all (\<lambda>n. trim (take n (t @ w)) = [] \<or> parse (take n (t @ w)) = None)
      [0..<length (t @ w)]"
    unfolding compact_line_def by (rule conjunct2)
  then have a: "\<And>n. n \<in> set [0..<length (t @ w)] \<Longrightarrow>
      trim (take n (t @ w)) = [] \<or> parse (take n (t @ w)) = None"
    unfolding list_all_iff by (rule bspec)
  from assms(2) have "length t \<in> set [0..<length (t @ w)]" by simp
  from a [OF this] show ?thesis by simp
qed

lemma stream_text_has_newline: "ls \<noteq> [] \<Longrightarrow> newline \<in> set (stream_text ls)"
  by (cases ls) (auto simp: stream_text_Cons)

lemma append_eq_cases:
  assumes "x @ u = l @ v"
  shows "(\<exists>w. x @ w = l \<and> u = w @ v) \<or> (\<exists>w. x = l @ w \<and> w @ u = v \<and> w \<noteq> [])"
proof -
  from assms obtain us where us: "(x = l @ us \<and> us @ u = v) \<or> (x @ us = l \<and> u = us @ v)"
    using append_eq_append_conv2 [THEN iffD1] by blast
  show ?thesis
  proof (cases "us = []")
    case True
    with us have "x @ [] = l \<and> u = [] @ v" by auto
    then show ?thesis by blast
  next
    case False
    with us show ?thesis by blast
  qed
qed


lemma stream_prefix_decompose:
  assumes "x @ u = stream_text rest"
  shows "\<exists>done' t' rest'. rest = done' @ rest' \<and> x = stream_text done' @ t'
           \<and> ((rest' = [] \<and> t' = [] \<and> u = [])
              \<or> (\<exists>l rs w. rest' = l # rs \<and> l = t' @ w \<and> u = w @ newline # stream_text rs))"
  using assms
proof (induction rest arbitrary: x)
  case Nil
  then have xu: "x = []" "u = []" by (simp_all add: stream_text_Nil)
  show ?case
    by (rule exI [of _ "[]"], rule exI [of _ "[]"], rule exI [of _ "[]"])
      (simp add: xu stream_text_Nil)
next
  case (Cons l rs)
  from Cons.prems have e: "x @ u = l @ newline # stream_text rs"
    by (simp add: stream_text_Cons)
  from append_eq_cases [OF e]
  consider (short) w where "x @ w = l" "u = w @ newline # stream_text rs"
    | (long) w where "x = l @ w" "w @ u = newline # stream_text rs" "w \<noteq> []"
    by blast
  then show ?case
  proof cases
    case short
    have a: "l # rs = [] @ (l # rs)" by simp
    have b: "x = stream_text [] @ x" by (simp add: stream_text_Nil)
    have c: "l = x @ w" using short(1) by (rule sym)
    from a b c short(2) show ?thesis by blast
  next
    case long
    from long(3) obtain c x' where w: "w = c # x'" by (cases w) auto
    with long(2) have c: "c = newline" and x': "x' @ u = stream_text rs" by simp_all
    from Cons.IH [OF x'] obtain done' t' rest' where
      d: "rs = done' @ rest'" "x' = stream_text done' @ t'"
        "(rest' = [] \<and> t' = [] \<and> u = [])
              \<or> (\<exists>l rs w. rest' = l # rs \<and> l = t' @ w \<and> u = w @ newline # stream_text rs)"
      by blast
    have a: "l # rs = (l # done') @ rest'"
      unfolding d(1) by simp
    have b: "x = stream_text (l # done') @ t'"
      unfolding long(1) w c d(2) stream_text_Cons by simp
    from a b d(3) show ?thesis by blast
  qed
qed

lemma newline_stream_text_snoc:
  "\<exists>X. newline # stream_text ds = X @ [newline] \<and> length X = length (stream_text ds)"
proof (cases ds rule: rev_cases)
  case Nil
  then show ?thesis by (simp add: stream_text_Nil)
next
  case (snoc ds' l)
  have "newline # stream_text ds = (newline # stream_text ds' @ l) @ [newline]"
    by (simp add: snoc stream_text_append stream_text_Cons stream_text_Nil)
  moreover have "length (newline # stream_text ds' @ l) = length (stream_text ds)"
    by (simp add: snoc stream_text_append stream_text_Cons stream_text_Nil)
  ultimately show ?thesis by blast
qed

lemma drop_after_newline:
  "drop (length (stream_text ds)) (newline # stream_text ds @ t) = newline # t"
proof -
  obtain X where X: "newline # stream_text ds = X @ [newline]"
      "length X = length (stream_text ds)"
    using newline_stream_text_snoc by blast
  have "newline # stream_text ds @ t = (newline # stream_text ds) @ t" by simp
  also have "\<dots> = X @ newline # t" unfolding X(1) by simp
  finally have eq: "newline # stream_text ds @ t = X @ newline # t" .
  show ?thesis unfolding eq X(2) [symmetric] by simp
qed

lemma on_data_step:
  assumes "b = [] \<or> b = [newline]"
    and "fullResponse st @ chunk = b @ stream_text ds @ t"
    and "list_all (record_line parse) ds"
    and "newline \<notin> set t"
  shows "(trim t = [] \<or> parse t = None \<longrightarrow>
            on_data parse st chunk =
              \<lparr>fullResponse = b @ t,
               generatedMessage = generatedMessage st @ fragments parse ds\<rparr>)
       \<and> (trim t \<noteq> [] \<and> parse t \<noteq> None \<longrightarrow>
            on_data parse st chunk =
              \<lparr>fullResponse = [],
               generatedMessage = generatedMessage st @ fragments parse ds @ the (parse t)\<rparr>)"
  using assms(1)
proof
  assume "b = []"
  with assms(2) have "fullResponse st @ chunk = stream_text ds @ t" by simp
  from on_data_aligned [OF this assms(3,4)] \<open>b = []\<close> show ?thesis by simp
next
  assume b: "b = [newline]"
  let ?F = "newline # stream_text ds @ t"
  from b assms(2) have full: "fullResponse st @ chunk = ?F" by simp
  have j: "jsonResponses ?F = ds @ (if trim t = [] then [] else [t])"
    by (simp add: jsonResponses_newline jsonResponses_stream_text [OF assms(3,4)])
  show ?thesis
  proof (intro conjI impI)
    assume h: "trim t = [] \<or> parse t = None"
    have f: "filter (\<lambda>l. parse l \<noteq> None) (jsonResponses ?F) = ds"
      using h by (auto simp del: not_None_eq simp add: j filter_record_lines [OF assms(3)])
    have g: "fragments parse (jsonResponses ?F) = fragments parse ds"
      using h by (auto simp: j fragments_append fragments_def)
    show "on_data parse st chunk =
              \<lparr>fullResponse = b @ t,
               generatedMessage = generatedMessage st @ fragments parse ds\<rparr>"
      unfolding on_data_eq full f g drop_after_newline b by simp
  next
    assume h: "trim t \<noteq> [] \<and> parse t \<noteq> None"
    have f: "filter (\<lambda>l. parse l \<noteq> None) (jsonResponses ?F) = ds @ [t]"
      using h by (simp del: not_None_eq add: j filter_record_lines [OF assms(3)])
    have g: "fragments parse (jsonResponses ?F) = fragments parse ds @ the (parse t)"
      using h by (auto simp: j fragments_append fragments_def)
    have d: "drop (length (stream_text (ds @ [t]))) ?F = []"
      by (simp add: stream_text_append stream_text_Cons stream_text_Nil)
    show "on_data parse st chunk =
              \<lparr>fullResponse = [],
               generatedMessage = generatedMessage st @ fragments parse ds @ the (parse t)\<rparr>"
      unfolding on_data_eq full f g d by simp
  qed
qed



lemma on_data_empty:
  "on_data parse \<lparr>fullResponse = [], generatedMessage = g\<rparr> []
     = \<lparr>fullResponse = [], generatedMessage = g\<rparr>"
  by (simp add: on_data_eq jsonResponses_def trim_Nil stream_text_Nil fragments_def)

lemma trim_newline: "trim [newline] = []"
  by (simp add: trim_def js_ws_def newline_def)

lemma fragments_Nil: "fragments parse [] = []"
  by (simp add: fragments_def)

lemma fragments_record: "record_line parse l \<Longrightarrow> fragments parse [l] = the (parse l)"
  by (auto simp: fragments_def record_line_def)

lemma compact_lines_records:
  "list_all (compact_line parse) ls \<Longrightarrow> list_all (record_line parse) ls"
  by (induction ls) (simp_all add: compact_line_record)

lemma feed_compact:
  assumes "list_all (compact_line parse) rest"
    and "b = [] \<or> b = [newline]"
    and "buffer @ concat chunks = b @ stream_text rest"
    and "newline \<notin> set (drop (length b) buffer)"
  shows "final_parse parse
           (foldl (on_data parse) \<lparr>fullResponse = buffer, generatedMessage = g\<rparr> chunks)
         = g @ fragments parse rest"
  using assms
proof (induction chunks arbitrary: b buffer g rest)
  case Nil
  from Nil.prems(3) have buf: "buffer = b @ stream_text rest" by simp
  then have "drop (length b) buffer = stream_text rest" by simp
  with Nil.prems(4) have "newline \<notin> set (stream_text rest)" by simp
  with stream_text_has_newline have rest: "rest = []" by blast
  with buf have "buffer = b" by (simp add: stream_text_Nil)
  with Nil.prems(2) have "trim buffer = []"
    using trim_Nil trim_newline by auto
  then show ?case
    by (simp add: final_parse_def rest fragments_Nil)
next
  case (Cons c cs)
  let ?st = "\<lparr>fullResponse = buffer, generatedMessage = g\<rparr>"
  from Cons.prems(3) have full: "(buffer @ c) @ concat cs = b @ stream_text rest" by simp
  show ?case
  proof (cases "buffer @ c = []")
    case True
    then have e: "buffer = []" "c = []" by simp_all
    from Cons.prems(3) e have i1: "[] @ concat cs = b @ stream_text rest" by simp
    have i2: "newline \<notin> set (drop (length b) [])" by simp
    from Cons.IH [OF Cons.prems(1,2) i1 i2, of g]
    show ?thesis by (simp add: e on_data_empty)
  next
    case False
    have "\<exists>x. buffer @ c = b @ x \<and> x @ concat cs = stream_text rest"
      using Cons.prems(2)
    proof
      assume "b = []"
      with full show ?thesis by simp
    next
      assume b: "b = [newline]"
      from False obtain h x where hx: "buffer @ c = h # x" by (cases "buffer @ c") auto
      with full b have "h = newline" and "x @ concat cs = stream_text rest" by simp_all
      with hx b show ?thesis by simp
    qed
    then obtain x where x: "buffer @ c = b @ x" "x @ concat cs = stream_text rest"
      by blast
    from stream_prefix_decompose [OF x(2)] obtain done' t' rest' where
      d: "rest = done' @ rest'" "x = stream_text done' @ t'"
        "(rest' = [] \<and> t' = [] \<and> concat cs = [])
          \<or> (\<exists>l rs w. rest' = l # rs \<and> l = t' @ w
                \<and> concat cs = w @ newline # stream_text rs)"
      by blast
    from Cons.prems(1) d(1) have cd: "list_all (compact_line parse) done'"
      and cr: "list_all (compact_line parse) rest'" by simp_all
    from cd have recs: "list_all (record_line parse) done'" by (rule compact_lines_records)
    have fr: "fullResponse ?st @ c = b @ stream_text done' @ t'"
      using x(1) d(2) by simp
    from d(3) show ?thesis
    proof
      assume a: "rest' = [] \<and> t' = [] \<and> concat cs = []"
      then have t': "t' = []" and r': "rest' = []" and cs: "concat cs = []" by simp_all
      have nl: "newline \<notin> set t'" by (simp add: t')
      from on_data_step [OF Cons.prems(2) fr recs nl]
      have od: "on_data parse ?st c
          = \<lparr>fullResponse = b, generatedMessage = g @ fragments parse done'\<rparr>"
        by (simp add: t' trim_Nil)
      have i0: "list_all (compact_line parse) []" by simp
      have i1: "b @ concat cs = b @ stream_text []" by (simp add: cs stream_text_Nil)
      have i2: "newline \<notin> set (drop (length b) b)" by simp
      from Cons.IH [OF i0 Cons.prems(2) i1 i2, of "g @ fragments parse done'"]
      show ?thesis by (simp add: od d(1) r' fragments_Nil)
    next
      assume "\<exists>l rs w. rest' = l # rs \<and> l = t' @ w
                \<and> concat cs = w @ newline # stream_text rs"
      then obtain l rs w where r': "rest' = l # rs" and l: "l = t' @ w"
        and cs: "concat cs = w @ newline # stream_text rs" by blast
      from cr r' have cl: "compact_line parse l" and crs: "list_all (compact_line parse) rs"
        by simp_all
      from cl have rl: "record_line parse l" by (rule compact_line_record)
      then have "newline \<notin> set l" by (simp add: record_line_def)
      with l have nl: "newline \<notin> set t'" by simp
      note step = on_data_step [OF Cons.prems(2) fr recs nl]
      show ?thesis
      proof (cases "w = []")
        case True
        with l have tl: "t' = l" by simp
        from rl have "trim l \<noteq> [] \<and> parse l \<noteq> None" by (simp add: record_line_def)
        with step tl have od: "on_data parse ?st c
            = \<lparr>fullResponse = [],
               generatedMessage = g @ fragments parse done' @ the (parse l)\<rparr>"
          by simp
        have i1: "[] @ concat cs = [newline] @ stream_text rs" by (simp add: cs True)
        have i2: "newline \<notin> set (drop (length [newline]) [])" by simp
        have i3: "[newline] = [] \<or> [newline] = [newline]" by simp
        from Cons.IH [OF crs i3 i1 i2, of "g @ fragments parse done' @ the (parse l)"]
        show ?thesis
          by (simp add: od d(1) r' fragments_append fragments_record [OF rl, symmetric]
              fragments_append [of parse "[l]" rs, simplified, symmetric])
      next
        case False
        from compact_line_prefix [OF cl [unfolded l] False]
        have "trim t' = [] \<or> parse t' = None" .
        with step have od: "on_data parse ?st c
            = \<lparr>fullResponse = b @ t', generatedMessage = g @ fragments parse done'\<rparr>"
          by simp
        have i1: "(b @ t') @ concat cs = b @ stream_text (l # rs)"
          by (simp add: cs l stream_text_Cons)
        have i2: "newline \<notin> set (drop (length b) (b @ t'))" using nl by simp
        have i0: "list_all (compact_line parse) (l # rs)" using cl crs by simp
        from Cons.IH [OF i0 Cons.prems(2) i1 i2, of "g @ fragments parse done'"]
        show ?thesis by (simp add: od d(1) r' fragments_append)
      qed
    qed
  qed
qed

text \<open>
  Where the accumulator is independent of the chunk boundaries: a stream of compact record
  lines accumulates the fragments of its records, however its text is cut into chunks.
\<close>

lemma chunk_independence_compact:
  assumes "list_all (compact_line parse) ls"
    and "concat chunks = stream_text ls"
  shows "accumulated parse chunks = fragments parse ls"
proof -
  have i1: "[] @ concat chunks = [] @ stream_text ls" using assms(2) by simp
  have i2: "newline \<notin> set (drop (length []) [])" by simp
  have i3: "([]::string) = [] \<or> [] = [newline]" by simp
  from feed_compact [OF assms(1) i3 i1 i2, of "[]"]
  show ?thesis by (simp add: accumulated_def feed_def initial_state_def)
qed

lemma concat_bytewise: "concat (bytewise s) = s"
  by (induction s) (simp_all add: bytewise_def)

lemma byte_by_byte_example:
  \<open>accumulated parse_response
      (bytewise (stream_text [''{"response":"a"}'', ''{"response":"b"}''])) = ''ab''\<close>
proof -
  have c: \<open>list_all (compact_line parse_response) [''{"response":"a"}'', ''{"response":"b"}'']\<close>
    by code_simp
  have f: \<open>fragments parse_response [''{"response":"a"}'', ''{"response":"b"}''] = ''ab''\<close>
    by code_simp
  from chunk_independence_compact [OF c concat_bytewise] f show ?thesis by simp
qed

text \<open>
  C1 at a stream of two records, the first padded with 16 spaces before its newline: delivered
  as one chunk it accumulates \<^verbatim>\<open>ab\<close>; split after the closing brace of the first record, or
  delivered one character per chunk, it accumulates \<^verbatim>\<open>abb\<close>.
\<close>

theorem chunk_boundary_duplicates_fragment:
  \<open>concat [''{"response":"a"}'',
            replicate 16 (CHR '' '') @ [newline] @ ''{"response":"b"}'' @ [newline]]
     = stream_text [''{"response":"a"}'' @ replicate 16 (CHR '' ''), ''{"response":"b"}'']
   \<and> list_all (record_line parse_response)
        [''{"response":"a"}'' @ replicate 16 (CHR '' ''), ''{"response":"b"}'']
   \<and> accumulated parse_response
        [stream_text [''{"response":"a"}'' @ replicate 16 (CHR '' ''), ''{"response":"b"}'']]
       = ''ab''
   \<and> accumulated parse_response
        [''{"response":"a"}'',
         replicate 16 (CHR '' '') @ [newline] @ ''{"response":"b"}'' @ [newline]] = ''abb''
   \<and> accumulated parse_response
        (bytewise
          (stream_text [''{"response":"a"}'' @ replicate 16 (CHR '' ''), ''{"response":"b"}'']))
       = ''abb''\<close>
  by code_simp

end
